theory Spec2Isabelle
  imports Complex_Main
begin

section \<open>JavaScript values and arrays\<close>

text \<open>
  The model of the World in \<^verbatim>\<open>src/index.js\<close> is an array of columns, each an array
  of numbers (\<open>1\<close> alive, \<open>0\<close> dead). Reading an array outside its bounds gives
  \<^verbatim>\<open>undefined\<close>, adding \<^verbatim>\<open>undefined\<close> to a number gives \<^verbatim>\<open>NaN\<close>, and reading a
  property of \<^verbatim>\<open>undefined\<close> throws a \<^verbatim>\<open>TypeError\<close>. All three occur in \<^verbatim>\<open>_next\<close>,
  so they are values of the model.
\<close>

datatype jsval = Num int | NaN | Undefined

datatype error = TypeError

text \<open>The operator \<^verbatim>\<open>+\<close> on numbers and \<^verbatim>\<open>undefined\<close>.\<close>

fun js_add :: "jsval \<Rightarrow> jsval \<Rightarrow> jsval" where
  "js_add (Num a) (Num b) = Num (a + b)"
| "js_add _ _ = NaN"

text \<open>The truth value of \<^verbatim>\<open>if (v)\<close>.\<close>

fun truthy :: "jsval \<Rightarrow> bool" where
  "truthy (Num a) = (a \<noteq> 0)"
| "truthy NaN = False"
| "truthy Undefined = False"

text \<open>\<^verbatim>\<open>v < i\<close>, \<^verbatim>\<open>v > i\<close> and \<^verbatim>\<open>v === i\<close> against a number literal: false on \<^verbatim>\<open>NaN\<close>.\<close>

fun js_less :: "jsval \<Rightarrow> int \<Rightarrow> bool" where
  "js_less (Num a) i = (a < i)"
| "js_less _ i = False"

fun js_greater :: "jsval \<Rightarrow> int \<Rightarrow> bool" where
  "js_greater (Num a) i = (a > i)"
| "js_greater _ i = False"

fun js_seq :: "jsval \<Rightarrow> int \<Rightarrow> bool" where
  "js_seq (Num a) i = (a = i)"
| "js_seq _ i = False"

text \<open>\<^verbatim>\<open>xs[i]\<close>: \<open>None\<close> stands for \<^verbatim>\<open>undefined\<close> (index \<open>-1\<close> or past the end).\<close>

definition element :: "'a list \<Rightarrow> int \<Rightarrow> 'a option" where
  "element xs i = (if 0 \<le> i \<and> i < int (length xs) then Some (xs ! nat i) else None)"

text \<open>\<^verbatim>\<open>m[i][j]\<close>: throws when \<^verbatim>\<open>m[i]\<close> is \<^verbatim>\<open>undefined\<close>.\<close>

definition cell_at :: "jsval list list \<Rightarrow> int \<Rightarrow> int \<Rightarrow> error + jsval" where
  "cell_at m i j =
     (case element m i of
        None \<Rightarrow> Inl TypeError
      | Some col \<Rightarrow> Inr (case element col j of None \<Rightarrow> Undefined | Some v \<Rightarrow> v))"

text \<open>\<^verbatim>\<open>a + b\<close> where either operand may throw; operands are evaluated left to right.\<close>

fun plus_res :: "error + jsval \<Rightarrow> error + jsval \<Rightarrow> error + jsval" where
  "plus_res (Inl e) b = Inl e"
| "plus_res (Inr a) (Inl e) = Inl e"
| "plus_res (Inr a) (Inr b) = Inr (js_add a b)"

text \<open>\<^verbatim>\<open>xs[k] = v\<close>: an index past the end extends the array, the gap reads \<^verbatim>\<open>undefined\<close>.\<close>

definition array_set :: "jsval list \<Rightarrow> nat \<Rightarrow> jsval \<Rightarrow> jsval list" where
  "array_set xs k v =
     (if k < length xs then xs[k := v]
      else xs @ replicate (k - length xs) Undefined @ [v])"

text \<open>\<^verbatim>\<open>newModel[n][k] = v\<close>: throws when \<^verbatim>\<open>newModel[n]\<close> is \<^verbatim>\<open>undefined\<close>.\<close>

definition assign :: "jsval list list \<Rightarrow> nat \<Rightarrow> nat \<Rightarrow> jsval \<Rightarrow> error + jsval list list" where
  "assign newModel n k v =
     (if n < length newModel then Inr (newModel[n := array_set (newModel ! n) k v])
      else Inl TypeError)"

section \<open>The engine\<close>

text \<open>
  The options object as the caller passes it: every field may be absent. The constructor
  replaces an absent or falsy field (\<open>0\<close>, the empty string) by its default with
  \<^verbatim>\<open>||\<close>. Widths and heights are integers here; the canvas, its context and the timer
  handle are display and scheduling glue and are left out.
\<close>

record raw_options =
  raw_selector :: "string option"
  raw_width :: "int option"
  raw_height :: "int option"
  raw_interval :: "int option"

record options =
  selector :: string
  width :: int
  height :: int
  interval :: int

definition or_default :: "int option \<Rightarrow> int \<Rightarrow> int" where
  "or_default v d = (case v of None \<Rightarrow> d | Some x \<Rightarrow> if x = 0 then d else x)"

definition or_default_string :: "string option \<Rightarrow> string \<Rightarrow> string" where
  "or_default_string v d = (case v of None \<Rightarrow> d | Some x \<Rightarrow> if x = [] then d else x)"

text \<open>
  The state of one engine: its options, the current model, and the values that
  \<^verbatim>\<open>Math.random()\<close> returns to it (\<open>random e i\<close> is the \<open>i\<close>-th value, \<open>drawn e\<close> counts
  the values consumed so far). A double is represented by the rational it denotes.
\<close>

record engine =
  opts :: options
  model :: "jsval list list"
  random :: "nat \<Rightarrow> rat"
  drawn :: nat

text \<open>
  \<^verbatim>\<open>a * b\<close> on doubles is the exact product rounded to the nearest double, a tie going
  to the even significand. \<open>exponent_of 1023 y\<close> searches the binary exponent of \<open>y\<close>
  downwards from the largest one and stops at \<open>-1022\<close>, the exponent of the subnormal
  numbers; a double has \<open>52\<close> fraction bits below it. Overflow does not arise: the
  products of \<^verbatim>\<open>_generateModel\<close> are below \<open>4\<close>.
\<close>

definition two_pow :: "int \<Rightarrow> rat" where
  "two_pow e = (if 0 \<le> e then 2 ^ nat e else 1 / 2 ^ nat (- e))"

function exponent_of :: "int \<Rightarrow> rat \<Rightarrow> int" where
  "exponent_of e y = (if e \<le> - 1022 \<or> two_pow e \<le> y then e else exponent_of (e - 1) y)"
  by pat_completeness auto
termination
  by (relation "measure (\<lambda>(e, y). nat (e + 1022))") auto

definition round_half_even :: "rat \<Rightarrow> int" where
  "round_half_even z =
     (if z - of_int \<lfloor>z\<rfloor> < 1 / 2 then \<lfloor>z\<rfloor>
      else if 1 / 2 < z - of_int \<lfloor>z\<rfloor> then \<lfloor>z\<rfloor> + 1
      else if even \<lfloor>z\<rfloor> then \<lfloor>z\<rfloor> else \<lfloor>z\<rfloor> + 1)"

definition to_double :: "rat \<Rightarrow> rat" where
  "to_double y =
     of_int (round_half_even (y / two_pow (exponent_of 1023 \<bar>y\<bar> - 52)))
       * two_pow (exponent_of 1023 \<bar>y\<bar> - 52)"

definition js_mul :: "rat \<Rightarrow> rat \<Rightarrow> rat" where
  "js_mul a b = to_double (a * b)"

text \<open>\<^verbatim>\<open>Math.round(x)\<close>: the nearest integer, a tie going up.\<close>

definition Math_round :: "rat \<Rightarrow> int" where
  "Math_round x = \<lfloor>x + 1 / 2\<rfloor>"

text \<open>
  The value pushed for one cell, with the number of random values consumed after it:
  \<^verbatim>\<open>args.randomizePopulation ? Math.round(Math.round(Math.random() * 3) === 3 ? Math.random() * 1 : 0) : 0\<close>.
\<close>

definition cell_value :: "bool \<Rightarrow> (nat \<Rightarrow> rat) \<Rightarrow> nat \<Rightarrow> jsval \<times> nat" where
  "cell_value randomizePopulation rnd p =
     (if randomizePopulation then
        (if Math_round (js_mul (rnd p) 3) = 3
         then (Num (Math_round (js_mul (rnd (p + 1)) 1)), p + 2)
         else (Num (Math_round 0), p + 1))
      else (Num 0, p))"

text \<open>The inner loop of \<^verbatim>\<open>_generateModel\<close>: \<^verbatim>\<open>for (k = 0; k < kl; ++k) innerModel.push(...)\<close>.\<close>

function generate_inner ::
  "bool \<Rightarrow> (nat \<Rightarrow> rat) \<Rightarrow> int \<Rightarrow> int \<Rightarrow> jsval list \<Rightarrow> nat \<Rightarrow> jsval list \<times> nat" where
  "generate_inner rp rnd kl k innerModel p =
     (if k < kl then
        generate_inner rp rnd kl (k + 1)
          (innerModel @ [fst (cell_value rp rnd p)]) (snd (cell_value rp rnd p))
      else (innerModel, p))"
  by pat_completeness auto
termination
  by (relation "measure (\<lambda>(rp, rnd, kl, k, innerModel, p). nat (kl - k))") auto

text \<open>The outer loop: \<^verbatim>\<open>for (n = 0; n < nl; ++n) { ...; model.push(innerModel); }\<close>.\<close>

function generate_outer ::
  "bool \<Rightarrow> (nat \<Rightarrow> rat) \<Rightarrow> int \<Rightarrow> int \<Rightarrow> int \<Rightarrow> jsval list list \<Rightarrow> nat
     \<Rightarrow> jsval list list \<times> nat" where
  "generate_outer rp rnd nl kl n mdl p =
     (if n < nl then
        generate_outer rp rnd nl kl (n + 1)
          (mdl @ [fst (generate_inner rp rnd kl 0 [] p)])
          (snd (generate_inner rp rnd kl 0 [] p))
      else (mdl, p))"
  by pat_completeness auto
termination
  by (relation "measure (\<lambda>(rp, rnd, nl, kl, n, mdl, p). nat (nl - n))") auto

text \<open>
  \<^verbatim>\<open>_generateModel(args)\<close>: \<open>width\<close> columns of \<open>height\<close> cells. An absent \<^verbatim>\<open>args\<close>
  is \<open>randomizePopulation = False\<close>.
\<close>

definition generateModel :: "engine \<Rightarrow> bool \<Rightarrow> jsval list list \<times> nat" where
  "generateModel this randomizePopulation =
     generate_outer randomizePopulation (random this)
       (width (opts this)) (height (opts this)) 0 [] (drawn this)"

text \<open>\<^verbatim>\<open>restart()\<close>: a new model with random population (rendering and the timer left out).\<close>

definition restart :: "engine \<Rightarrow> engine" where
  "restart this =
     this\<lparr>model := fst (generateModel this True), drawn := snd (generateModel this True)\<rparr>"

text \<open>The constructor: defaults, then \<^verbatim>\<open>restart()\<close>.\<close>

definition GameOfLife :: "raw_options \<Rightarrow> (nat \<Rightarrow> rat) \<Rightarrow> engine" where
  "GameOfLife options rnd =
     restart
       \<lparr>opts = \<lparr>selector = or_default_string (raw_selector options) ''world'',
                width = or_default (raw_width options) 100,
                height = or_default (raw_height options) 100,
                interval = or_default (raw_interval options) 100\<rparr>,
        model = [],
        random = rnd,
        drawn = 0\<rparr>"

section \<open>One generation\<close>

text \<open>
  The neighbour count of \<^verbatim>\<open>_next\<close> at column \<open>n\<close>, row \<open>k\<close>, branch by branch as the
  source has them. The last \<open>else\<close> is the initial value \<open>0\<close> of \<^verbatim>\<open>aliveNeighbours\<close>.
\<close>

definition aliveNeighbours :: "engine \<Rightarrow> int \<Rightarrow> int \<Rightarrow> error + jsval" where
  "aliveNeighbours this n k =
     (let m = model this; w = width (opts this); h = height (opts this) in
      if n = 0 \<and> k = 0 then
        plus_res (plus_res (cell_at m (n + 1) (k - 1)) (cell_at m (n + 1) k))
          (cell_at m (n + 1) (k + 1))
      else if n = w - 1 \<and> k = 0 then
        plus_res (plus_res (cell_at m (n - 1) k) (cell_at m (n - 1) (k - 1)))
          (cell_at m n (k + 1))
      else if n = w - 1 \<and> k = h then
        plus_res (plus_res (cell_at m (n - 1) (k - 1)) (cell_at m n (k - 1)))
          (cell_at m (n - 1) k)
      else if n = 0 \<and> k = h then
        plus_res (plus_res (cell_at m n (k - 1)) (cell_at m (n + 1) (k - 1)))
          (cell_at m (n + 1) k)
      else if n \<noteq> 0 \<and> k \<noteq> 0 \<and> n < w - 1 \<and> k < h - 1 then
        plus_res (plus_res (plus_res (plus_res (plus_res (plus_res (plus_res
          (cell_at m (n - 1) (k - 1))
          (cell_at m (n - 1) k))
          (cell_at m (n - 1) (k + 1)))
          (cell_at m n (k - 1)))
          (cell_at m n (k + 1)))
          (cell_at m (n + 1) (k - 1)))
          (cell_at m (n + 1) k))
          (cell_at m (n + 1) (k + 1))
      else Inr (Num 0))"

text \<open>
  The rules of the game on one cell. \<^verbatim>\<open>this._model[n][k]\<close> is read inside the loop
  bounds \<open>n < this._model.length\<close>, \<open>k < this._model[n].length\<close>.
\<close>

definition new_state ::
  "engine \<Rightarrow> nat \<Rightarrow> nat \<Rightarrow> jsval \<Rightarrow> jsval list list \<Rightarrow> error + jsval list list" where
  "new_state this n k an newModel =
     (if truthy (model this ! n ! k) then
        (if js_less an 2 then assign newModel n k (Num 0)
         else if js_seq an 2 \<or> js_seq an 3 then assign newModel n k (Num 1)
         else if js_greater an 3 then assign newModel n k (Num 0)
         else Inr newModel)
      else if js_seq an 3 then assign newModel n k (Num 1)
      else Inr newModel)"

text \<open>The loop over the rows \<open>k\<close> of column \<open>n\<close>.\<close>

function next_inner ::
  "engine \<Rightarrow> nat \<Rightarrow> nat \<Rightarrow> nat \<Rightarrow> jsval list list \<Rightarrow> error + jsval list list" where
  "next_inner this n kl k newModel =
     (if k < kl then
        (case aliveNeighbours this (int n) (int k) of
           Inl e \<Rightarrow> Inl e
         | Inr an \<Rightarrow>
             (case new_state this n k an newModel of
                Inl e \<Rightarrow> Inl e
              | Inr newModel' \<Rightarrow> next_inner this n kl (k + 1) newModel'))
      else Inr newModel)"
  by pat_completeness auto
termination
  by (relation "measure (\<lambda>(this, n, kl, k, newModel). kl - k)") auto

text \<open>The loop over the columns \<open>n\<close>; \<open>kl\<close> is \<^verbatim>\<open>this._model[n].length\<close>.\<close>

function next_outer ::
  "engine \<Rightarrow> nat \<Rightarrow> nat \<Rightarrow> jsval list list \<Rightarrow> error + jsval list list" where
  "next_outer this nl n newModel =
     (if n < nl then
        (case next_inner this n (length (model this ! n)) 0 newModel of
           Inl e \<Rightarrow> Inl e
         | Inr newModel' \<Rightarrow> next_outer this nl (n + 1) newModel')
      else Inr newModel)"
  by pat_completeness auto
termination
  by (relation "measure (\<lambda>(this, nl, n, newModel). nl - n)") auto

text \<open>
  \<^verbatim>\<open>_next()\<close>: the new model starts without population and replaces the current one
  only after both loops have finished; an exception leaves \<^verbatim>\<open>this._model\<close> as it was.
\<close>

definition next_step :: "engine \<Rightarrow> error + engine" where
  "next_step this =
     (case next_outer this (length (model this)) 0 (fst (generateModel this False)) of
        Inl e \<Rightarrow> Inl e
      | Inr newModel \<Rightarrow> Inr (this\<lparr>model := newModel\<rparr>))"

text \<open>
  The timer callback \<^verbatim>\<open>function() { this._next(); }\<close> of \<^verbatim>\<open>restart\<close>: the engine after
  one call, whether \<^verbatim>\<open>_next\<close> returned or threw.
\<close>

definition cycle :: "engine \<Rightarrow> engine" where
  "cycle this = (case next_step this of Inl e \<Rightarrow> this | Inr this' \<Rightarrow> this')"

section \<open>Well-formed engines\<close>

text \<open>
  The model has \<open>width\<close> columns of \<open>height\<close> cells each, as \<^verbatim>\<open>_generateModel\<close> builds
  it, and every cell holds \<open>0\<close> or \<open>1\<close>.
\<close>

definition dims_ok :: "engine \<Rightarrow> bool" where
  "dims_ok this =
     (length (model this) = nat (width (opts this))
      \<and> list_all (\<lambda>col. length col = nat (height (opts this))) (model this))"

definition cells_ok :: "engine \<Rightarrow> bool" where
  "cells_ok this = list_all (list_all (\<lambda>c. c = Num 0 \<or> c = Num 1)) (model this)"

text \<open>\<^verbatim>\<open>Math.random()\<close> returns values in \<open>[0, 1)\<close>.\<close>

definition unit_interval :: "(nat \<Rightarrow> rat) \<Rightarrow> bool" where
  "unit_interval rnd = (\<forall>i. 0 \<le> rnd i \<and> rnd i < 1)"

text \<open>The width of the grid and the height of each of its columns.\<close>

definition grid_dims :: "engine \<Rightarrow> nat list" where
  "grid_dims this = map length (model this)"

text \<open>
  The operations that change an engine after its construction: \<^verbatim>\<open>restart()\<close> and the
  timer's call of \<^verbatim>\<open>_next()\<close>.
\<close>

datatype operation = Restart | Next

fun perform :: "operation \<Rightarrow> engine \<Rightarrow> engine" where
  "perform Restart this = restart this"
| "perform Next this = cycle this"

definition run :: "operation list \<Rightarrow> engine \<Rightarrow> engine" where
  "run ops this = fold perform ops this"

section \<open>The rules of the game as stated\<close>

text \<open>
  The Moore neighbourhood of a coordinate, the coordinates inside the grid, and the
  number of live cells among the neighbours that are inside it. A cell is alive when it
  holds \<open>1\<close>; a coordinate outside the grid holds no live cell.
\<close>

definition moore :: "int \<Rightarrow> int \<Rightarrow> (int \<times> int) list" where
  "moore n k =
     [(n - 1, k - 1), (n - 1, k), (n - 1, k + 1), (n, k - 1), (n, k + 1),
      (n + 1, k - 1), (n + 1, k), (n + 1, k + 1)]"

definition in_bounds :: "engine \<Rightarrow> int \<times> int \<Rightarrow> bool" where
  "in_bounds this p =
     (0 \<le> fst p \<and> fst p < width (opts this) \<and> 0 \<le> snd p \<and> snd p < height (opts this))"

definition is_alive :: "engine \<Rightarrow> int \<times> int \<Rightarrow> bool" where
  "is_alive this p = (cell_at (model this) (fst p) (snd p) = Inr (Num 1))"

definition live_neighbours :: "engine \<Rightarrow> int \<Rightarrow> int \<Rightarrow> nat" where
  "live_neighbours this n k =
     length (filter (\<lambda>p. in_bounds this p \<and> is_alive this p) (moore n k))"

text \<open>A cell is strictly interior when all eight neighbours are inside the grid.\<close>

definition interior :: "engine \<Rightarrow> int \<Rightarrow> int \<Rightarrow> bool" where
  "interior this n k = list_all (in_bounds this) (moore n k)"

text \<open>A cell lies on the boundary when it is in the first or last column or row.\<close>

definition on_boundary :: "engine \<Rightarrow> int \<Rightarrow> int \<Rightarrow> bool" where
  "on_boundary this n k =
     (in_bounds this (n, k)
      \<and> (n = 0 \<or> k = 0 \<or> n = width (opts this) - 1 \<or> k = height (opts this) - 1))"

text \<open>
  The standard rule: a live cell survives with two or three live neighbours, a dead cell
  becomes alive with exactly three, every other cell is dead.
\<close>

definition conway :: "bool \<Rightarrow> nat \<Rightarrow> jsval" where
  "conway alive c =
     (if alive then (if c = 2 \<or> c = 3 then Num 1 else Num 0)
      else (if c = 3 then Num 1 else Num 0))"

definition no_cell_alive :: "engine \<Rightarrow> bool" where
  "no_cell_alive this = list_all (list_all (\<lambda>c. \<not> truthy c)) (model this)"

section \<open>The next model in closed form\<close>

text \<open>
  The cell at an integer coordinate, \<^verbatim>\<open>undefined\<close> outside the grid; the sum the
  interior branch of \<^verbatim>\<open>_next\<close> computes; the value of \<^verbatim>\<open>aliveNeighbours\<close> on a
  well-formed engine of width other than one; and the value \<^verbatim>\<open>newModel[n][k]\<close> holds
  after the rules ran on a cell that was \<open>0\<close> in the new model. These are shown below
  to describe what the loops of \<^verbatim>\<open>_next\<close> compute.
\<close>

definition cellv :: "engine \<Rightarrow> int \<Rightarrow> int \<Rightarrow> jsval" where
  "cellv this i j = (case cell_at (model this) i j of Inl e \<Rightarrow> Undefined | Inr v \<Rightarrow> v)"

definition sum8 :: "engine \<Rightarrow> int \<Rightarrow> int \<Rightarrow> jsval" where
  "sum8 this n k =
     js_add (js_add (js_add (js_add (js_add (js_add (js_add
       (cellv this (n - 1) (k - 1))
       (cellv this (n - 1) k))
       (cellv this (n - 1) (k + 1)))
       (cellv this n (k - 1)))
       (cellv this n (k + 1)))
       (cellv this (n + 1) (k - 1)))
       (cellv this (n + 1) k))
       (cellv this (n + 1) (k + 1))"

definition neighbour_sum :: "engine \<Rightarrow> int \<Rightarrow> int \<Rightarrow> jsval" where
  "neighbour_sum this n k =
     (if interior this n k then sum8 this n k
      else if k = 0 \<and> (n = 0 \<or> n = width (opts this) - 1) then NaN
      else Num 0)"

definition next_value :: "jsval \<Rightarrow> jsval \<Rightarrow> jsval" where
  "next_value c an =
     (if truthy c then (if js_seq an 2 \<or> js_seq an 3 then Num 1 else Num 0)
      else if js_seq an 3 then Num 1 else Num 0)"

definition next_model :: "engine \<Rightarrow> jsval list list" where
  "next_model this =
     map (\<lambda>i. map (\<lambda>j. next_value (cellv this (int i) (int j)) (neighbour_sum this (int i) (int j)))
             [0..<nat (height (opts this))])
       [0..<nat (width (opts this))]"

section \<open>Patterns\<close>

text \<open>
  A grid given by a predicate on coordinates, the horizontal and the vertical triple
  through \<open>(c, d)\<close>, and the two by two block with corner \<open>(c, d)\<close>. The first index
  is the column, which \<^verbatim>\<open>_render\<close> draws at \<open>x = n * CELL_SIZE_IN_PIXELS\<close>.
\<close>

definition grid_of :: "int \<Rightarrow> int \<Rightarrow> (int \<Rightarrow> int \<Rightarrow> bool) \<Rightarrow> jsval list list" where
  "grid_of w h P =
     map (\<lambda>i. map (\<lambda>j. Num (of_bool (P (int i) (int j)))) [0..<nat h]) [0..<nat w]"

definition horizontal :: "int \<Rightarrow> int \<Rightarrow> int \<Rightarrow> int \<Rightarrow> bool" where
  "horizontal c d i j = (j = d \<and> c - 1 \<le> i \<and> i \<le> c + 1)"

definition vertical :: "int \<Rightarrow> int \<Rightarrow> int \<Rightarrow> int \<Rightarrow> bool" where
  "vertical c d i j = (i = c \<and> d - 1 \<le> j \<and> j \<le> d + 1)"

definition block :: "int \<Rightarrow> int \<Rightarrow> int \<Rightarrow> int \<Rightarrow> bool" where
  "block c d i j = (c \<le> i \<and> i \<le> c + 1 \<and> d \<le> j \<and> j \<le> d + 1)"

text \<open>The number of neighbours satisfying a predicate, and the rule on that number.\<close>

definition count8 :: "(int \<Rightarrow> int \<Rightarrow> bool) \<Rightarrow> int \<Rightarrow> int \<Rightarrow> int" where
  "count8 P n k =
     of_bool (P (n - 1) (k - 1)) + of_bool (P (n - 1) k) + of_bool (P (n - 1) (k + 1))
     + of_bool (P n (k - 1)) + of_bool (P n (k + 1))
     + of_bool (P (n + 1) (k - 1)) + of_bool (P (n + 1) k) + of_bool (P (n + 1) (k + 1))"

definition survives :: "bool \<Rightarrow> int \<Rightarrow> bool" where
  "survives a s = (if a then s = 2 \<or> s = 3 else s = 3)"

section \<open>Sample engines\<close>

text \<open>
  Engines with a given width, height and model, and option objects with a given width
  and height, on which the definitions are evaluated. The source of random values of a
  sample engine returns \<open>0\<close> at every call.
\<close>

definition no_random :: "nat \<Rightarrow> rat" where
  "no_random i = 0"

definition engine_of :: "int \<Rightarrow> int \<Rightarrow> jsval list list \<Rightarrow> engine" where
  "engine_of w h m =
     \<lparr>opts = \<lparr>selector = ''world'', width = w, height = h, interval = 100\<rparr>,
      model = m, random = no_random, drawn = 0\<rparr>"

definition options_of :: "int \<Rightarrow> int \<Rightarrow> raw_options" where
  "options_of w h =
     \<lparr>raw_selector = None, raw_width = Some w, raw_height = Some h, raw_interval = None\<rparr>"

definition birth3 :: engine where
  "birth3 = engine_of 3 3 [[Num 1, Num 1, Num 0], [Num 1, Num 0, Num 0], [Num 0, Num 0, Num 0]]"

definition corner_block :: engine where
  "corner_block =
     engine_of 3 3 [[Num 1, Num 1, Num 0], [Num 1, Num 1, Num 0], [Num 0, Num 0, Num 0]]"

definition all_alive2 :: engine where
  "all_alive2 = engine_of 2 2 [[Num 1, Num 1], [Num 1, Num 1]]"

definition single_alive :: engine where
  "single_alive = engine_of 1 1 [[Num 1]]"

definition empty3 :: engine where
  "empty3 = engine_of 3 3 [[Num 0, Num 0, Num 0], [Num 0, Num 0, Num 0], [Num 0, Num 0, Num 0]]"

definition blinker5 :: engine where
  "blinker5 = engine_of 5 5 (grid_of 5 5 (horizontal 2 2))"

definition blinker_edge :: engine where
  "blinker_edge = engine_of 7 7 (grid_of 7 7 (horizontal 1 3))"

definition blinker3 :: engine where
  "blinker3 = engine_of 3 3 (grid_of 3 3 (horizontal 1 1))"

section \<open>Generating a model\<close>

declare generate_inner.simps [simp del] generate_outer.simps [simp del]
  next_inner.simps [simp del] next_outer.simps [simp del] exponent_of.simps [simp del]

lemma cell_value_False: "cell_value False rnd p = (Num 0, p)"
  by (simp add: cell_value_def)

lemma generate_inner_False:
  "generate_inner False rnd kl k innerModel p = (innerModel @ replicate (nat (kl - k)) (Num 0), p)"
proof (induction False rnd kl k innerModel p rule: generate_inner.induct)
  case (1 rnd kl k innerModel p)
  show ?case
  proof (cases "k < kl")
    case True
    then have "nat (kl - k) = Suc (nat (kl - (k + 1)))" by simp
    with True 1 show ?thesis
      by (subst generate_inner.simps) (simp add: cell_value_False replicate_Suc [symmetric] del: replicate_Suc)
  next
    case False
    then show ?thesis by (subst generate_inner.simps) simp
  qed
qed

lemma generate_inner_length:
  "length (fst (generate_inner rp rnd kl k innerModel p)) = length innerModel + nat (kl - k)"
proof (induction rp rnd kl k innerModel p rule: generate_inner.induct)
  case (1 rp rnd kl k innerModel p)
  show ?case
  proof (cases "k < kl")
    case True
    with 1 show ?thesis by (subst generate_inner.simps) simp
  next
    case False
    then show ?thesis by (subst generate_inner.simps) simp
  qed
qed

lemma generate_outer_False:
  "generate_outer False rnd nl kl n mdl p =
     (mdl @ replicate (nat (nl - n)) (replicate (nat kl) (Num 0)), p)"
proof (induction False rnd nl kl n mdl p rule: generate_outer.induct)
  case (1 rnd nl kl n mdl p)
  show ?case
  proof (cases "n < nl")
    case True
    then have "nat (nl - n) = Suc (nat (nl - (n + 1)))" by simp
    with True 1 show ?thesis
      by (subst generate_outer.simps) (simp add: generate_inner_False)
  next
    case False
    then show ?thesis by (subst generate_outer.simps) simp
  qed
qed

lemma generate_outer_length:
  "length (fst (generate_outer rp rnd nl kl n mdl p)) = length mdl + nat (nl - n)"
proof (induction rp rnd nl kl n mdl p rule: generate_outer.induct)
  case (1 rp rnd nl kl n mdl p)
  show ?case
  proof (cases "n < nl")
    case True
    with 1 show ?thesis by (subst generate_outer.simps) simp
  next
    case False
    then show ?thesis by (subst generate_outer.simps) simp
  qed
qed

lemma generate_outer_columns:
  "list_all (\<lambda>col. length col = nat kl) mdl \<Longrightarrow>
   list_all (\<lambda>col. length col = nat kl) (fst (generate_outer rp rnd nl kl n mdl p))"
proof (induction rp rnd nl kl n mdl p rule: generate_outer.induct)
  case (1 rp rnd nl kl n mdl p)
  show ?case
  proof (cases "n < nl")
    case True
    with 1 show ?thesis by (subst generate_outer.simps) (simp add: generate_inner_length)
  next
    case False
    with 1 show ?thesis by (subst generate_outer.simps) simp
  qed
qed

lemma generateModel_False:
  "generateModel this False =
     (replicate (nat (width (opts this))) (replicate (nat (height (opts this))) (Num 0)), drawn this)"
  by (simp add: generateModel_def generate_outer_False)

text \<open>
  C8: for positive \<open>w\<close> and \<open>h\<close>, generating a model without random population gives
  \<open>w\<close> columns of \<open>h\<close> cells, every one of them dead (\<open>0\<close>).
\<close>

theorem generateModel_blank:
  assumes "width (opts this) = w" and "height (opts this) = h" and "0 < w" and "0 < h"
  shows "fst (generateModel this False) = replicate (nat w) (replicate (nat h) (Num 0))
         \<and> int (length (fst (generateModel this False))) = w
         \<and> list_all (\<lambda>col. int (length col) = h \<and> list_all (\<lambda>c. c = Num 0) col)
               (fst (generateModel this False))"
  using assms by (simp add: generateModel_False list_all_iff)

theorem generateModel_blank_witness:
  "width (opts (engine_of 2 3 [])) = 2 \<and> height (opts (engine_of 2 3 [])) = 3
   \<and> fst (generateModel (engine_of 2 3 []) False) = [[Num 0, Num 0, Num 0], [Num 0, Num 0, Num 0]]"
  using generateModel_blank [of "engine_of 2 3 []" 2 3]
  by (simp add: engine_of_def numeral_2_eq_2 numeral_3_eq_3)

text \<open>
  The double product stays in \<open>[0, 1]\<close> on \<open>[0, 1)\<close>, so with random population
  every cell is \<open>0\<close> or \<open>1\<close>.
\<close>

lemma two_pow_pos: "0 < two_pow e"
  by (simp add: two_pow_def)

lemma two_pow_ge1: "0 \<le> e \<Longrightarrow> 1 \<le> two_pow e"
  by (simp add: two_pow_def)

lemma exponent_of_spec:
  "exponent_of e y \<le> - 1022 \<or> two_pow (exponent_of e y) \<le> y"
proof (induction e y rule: exponent_of.induct)
  case (1 e y)
  show ?case
  proof (cases "e \<le> - 1022 \<or> two_pow e \<le> y")
    case True
    then show ?thesis by (subst (1 2) exponent_of.simps) auto
  next
    case False
    with 1 show ?thesis by (subst (1 2) exponent_of.simps) auto
  qed
qed

lemma two_pow_powi: "two_pow e = 2 powi e"
proof (cases "0 \<le> e")
  case True
  then show ?thesis by (simp add: two_pow_def power_int_def)
next
  case False
  then show ?thesis by (simp add: two_pow_def power_int_def power_one_over)
qed

lemma two_pow_mono: "a \<le> b \<Longrightarrow> two_pow a \<le> two_pow b"
  by (simp add: two_pow_powi power_int_increasing)

lemma exponent_of_eq:
  assumes "- 1022 \<le> e" and "e \<le> e0" and "two_pow e \<le> y" and "y < two_pow (e + 1)"
  shows "exponent_of e0 y = e"
  using assms
proof (induction e0 y rule: exponent_of.induct)
  case (1 e0 y)
  show ?case
  proof (cases "e0 = e")
    case True
    with 1 show ?thesis by (subst exponent_of.simps) simp
  next
    case False
    with "1.prems" have lt: "e + 1 \<le> e0" by simp
    then have "two_pow (e + 1) \<le> two_pow e0" by (rule two_pow_mono)
    with "1.prems" have n: "\<not> (e0 \<le> - 1022 \<or> two_pow e0 \<le> y)" using lt by auto
    have "exponent_of (e0 - 1) y = e"
      using "1.IH" [OF n] "1.prems" lt by simp
    with n show ?thesis by (subst exponent_of.simps) simp
  qed
qed

lemma round_half_even_le: "z \<le> of_int k \<Longrightarrow> round_half_even z \<le> k"
proof -
  assume z: "z \<le> of_int k"
  then have f: "\<lfloor>z\<rfloor> \<le> k" by (simp add: floor_le_iff) 
  show ?thesis
  proof (cases "\<lfloor>z\<rfloor> = k")
    case True
    then have "z - of_int \<lfloor>z\<rfloor> \<le> 0" using z by simp
    then show ?thesis using True by (simp add: round_half_even_def)
  next
    case False
    with f have "\<lfloor>z\<rfloor> + 1 \<le> k" by simp
    then show ?thesis using f by (simp add: round_half_even_def)
  qed
qed

lemma round_half_even_nonneg: "0 \<le> z \<Longrightarrow> 0 \<le> round_half_even z"
  by (simp add: round_half_even_def)

lemma to_double_unit:
  assumes "0 \<le> y" and "y < 1"
  shows "0 \<le> to_double y \<and> to_double y \<le> 1"
proof -
  define e where "e = exponent_of 1023 \<bar>y\<bar>"
  define k where "k = nat (52 - e)"
  define q where "q = two_pow (e - 52)"
  have "e \<le> - 1022 \<or> two_pow e \<le> \<bar>y\<bar>"
    unfolding e_def by (rule exponent_of_spec)
  then have e: "e < 0"
    using two_pow_ge1 [of e] assms by (cases "0 \<le> e") auto
  then have q: "q = 1 / 2 ^ k" by (simp add: q_def k_def two_pow_def)
  have qpos: "0 < q" unfolding q_def by (rule two_pow_pos)
  have d: "to_double y = of_int (round_half_even (y / q)) * q"
    by (simp add: to_double_def e_def q_def)
  have "y / q = y * 2 ^ k" by (simp add: q)
  also have "\<dots> \<le> 1 * 2 ^ k" using assms by (intro mult_right_mono) simp_all
  finally have "y / q \<le> of_int (2 ^ k)" by simp
  then have "round_half_even (y / q) \<le> 2 ^ k"
    by (rule round_half_even_le)
  then have "(of_int (round_half_even (y / q)) :: rat) \<le> of_int (2 ^ k)"
    by (simp only: of_int_le_iff)
  then have "of_int (round_half_even (y / q)) * q \<le> of_int (2 ^ k) * q"
    using qpos by (simp add: mult_right_mono)
  also have "\<dots> = 1" by (simp add: q)
  finally have up: "to_double y \<le> 1" by (simp add: d)
  have "0 \<le> round_half_even (y / q)"
    using assms qpos by (intro round_half_even_nonneg) simp
  then have "0 \<le> to_double y"
    using qpos by (simp add: d)
  with up show ?thesis by simp
qed

lemma Math_round_unit: "0 \<le> x \<Longrightarrow> x \<le> 1 \<Longrightarrow> Math_round x = 0 \<or> Math_round x = 1"
  unfolding Math_round_def by linarith

lemma Math_round_0: "Math_round 0 = 0"
  unfolding Math_round_def by linarith

lemma cell_value_bit:
  assumes "unit_interval rnd"
  shows "fst (cell_value rp rnd p) = Num 0 \<or> fst (cell_value rp rnd p) = Num 1"
proof -
  have "0 \<le> rnd (p + 1) * 1" and "rnd (p + 1) * 1 < 1"
    using assms by (simp_all add: unit_interval_def)
  then have "0 \<le> to_double (rnd (p + 1) * 1) \<and> to_double (rnd (p + 1) * 1) \<le> 1"
    by (rule to_double_unit)
  then have "Math_round (js_mul (rnd (p + 1)) 1) = 0 \<or> Math_round (js_mul (rnd (p + 1)) 1) = 1"
    unfolding js_mul_def by (intro Math_round_unit) simp_all
  then show ?thesis
    by (auto simp: cell_value_def Math_round_0)
qed

text \<open>
  At \<^verbatim>\<open>Math.random() = 0.8333333333333333\<close>, the double \<open>7505999378950826 / 2^53\<close>,
  the exact product with \<open>3\<close> lies halfway between two doubles and is rounded to
  \<open>2.5\<close>, which \<^verbatim>\<open>Math.round\<close> takes to \<open>3\<close>.
\<close>

lemma js_mul_five_sixths:
  "js_mul (7505999378950826 / 9007199254740992) 3 = 5 / 2
   \<and> Math_round (js_mul (7505999378950826 / 9007199254740992) 3) = 3"
proof -
  define y :: rat where "y = 7505999378950826 / 9007199254740992 * 3"
  have e: "exponent_of 1023 \<bar>y\<bar> = 1"
    by (rule exponent_of_eq) (simp_all add: two_pow_def y_def)
  have q: "two_pow (- 51) = 1 / 2251799813685248" by (simp add: two_pow_def)
  have z: "y * 2251799813685248 = 11258999068426239 / 2" by (simp add: y_def)
  have f: "\<lfloor>11258999068426239 / 2 :: rat\<rfloor> = 5629499534213119" by linarith
  have r: "round_half_even (11258999068426239 / 2) = 5629499534213120"
    by (simp add: round_half_even_def f)
  have "to_double y = 5 / 2"
    by (simp add: to_double_def e q z r)
  then have m: "js_mul (7505999378950826 / 9007199254740992) 3 = 5 / 2"
    by (simp add: js_mul_def y_def)
  have r2: "Math_round (5 / 2) = 3" unfolding Math_round_def by linarith
  show ?thesis unfolding m using r2 by (intro conjI refl)
qed

lemma generate_inner_cells:
  assumes "unit_interval rnd" and "list_all (\<lambda>c. c = Num 0 \<or> c = Num 1) innerModel"
  shows "list_all (\<lambda>c. c = Num 0 \<or> c = Num 1) (fst (generate_inner rp rnd kl k innerModel p))"
  using assms
proof (induction rp rnd kl k innerModel p rule: generate_inner.induct)
  case (1 rp rnd kl k innerModel p)
  show ?case
  proof (cases "k < kl")
    case True
    have "list_all (\<lambda>c. c = Num 0 \<or> c = Num 1) (innerModel @ [fst (cell_value rp rnd p)])"
      using "1.prems" cell_value_bit [of rnd rp p] by simp
    from "1.IH" [OF True "1.prems"(1) this] True show ?thesis
      by (subst generate_inner.simps) simp
  next
    case False
    with 1 show ?thesis by (subst generate_inner.simps) simp
  qed
qed

lemma generate_outer_cells:
  assumes "unit_interval rnd" and "list_all (list_all (\<lambda>c. c = Num 0 \<or> c = Num 1)) mdl"
  shows "list_all (list_all (\<lambda>c. c = Num 0 \<or> c = Num 1))
           (fst (generate_outer rp rnd nl kl n mdl p))"
  using assms
proof (induction rp rnd nl kl n mdl p rule: generate_outer.induct)
  case (1 rp rnd nl kl n mdl p)
  show ?case
  proof (cases "n < nl")
    case True
    have "list_all (list_all (\<lambda>c. c = Num 0 \<or> c = Num 1))
        (mdl @ [fst (generate_inner rp rnd kl 0 [] p)])"
      using "1.prems" generate_inner_cells [of rnd "[]" rp kl 0 p] by simp
    from "1.IH" [OF True "1.prems"(1) this] True show ?thesis
      by (subst generate_outer.simps) simp
  next
    case False
    with 1 show ?thesis by (subst generate_outer.simps) simp
  qed
qed

section \<open>What the loops of \<open>_next\<close> compute\<close>

lemma new_state_eq:
  assumes "n < length nm" and "k < length (nm ! n)" and "nm ! n ! k = Num 0"
  shows "new_state this n k an nm =
           Inr (nm[n := (nm ! n)[k := next_value (model this ! n ! k) an]])"
proof -
  have same: "nm[n := (nm ! n)[k := Num 0]] = nm"
    using assms by (metis list_update_id)
  show ?thesis
    using assms same
    by (cases an) (auto simp: new_state_def next_value_def assign_def array_set_def)
qed

lemma take_Suc_update:
  "k < length xs \<Longrightarrow> take (Suc k) (xs[k := v]) = take k xs @ [v]"
  by (simp add: take_Suc_conv_app_nth)

lemma next_inner_eq:
  assumes "n < length nm" and "length (nm ! n) = kl"
    and "\<forall>j. k \<le> j \<and> j < kl \<longrightarrow> nm ! n ! j = Num 0"
    and "\<forall>j. k \<le> j \<and> j < kl \<longrightarrow> aliveNeighbours this (int n) (int j) = Inr (an j)"
  shows "next_inner this n kl k nm =
           Inr (nm[n := take k (nm ! n) @ map (\<lambda>j. next_value (model this ! n ! j) (an j)) [k..<kl]])"
  using assms
proof (induction "kl - k" arbitrary: k nm)
  case 0
  then have "\<not> k < kl" by simp
  with 0 show ?case
    by (subst next_inner.simps) simp
next
  case (Suc d)
  then have lt: "k < kl" by simp
  let ?v = "next_value (model this ! n ! k) (an k)"
  let ?nm = "nm[n := (nm ! n)[k := ?v]]"
  have an: "aliveNeighbours this (int n) (int k) = Inr (an k)"
    using Suc.prems lt by simp
  have ns: "new_state this n k (an k) nm = Inr ?nm"
    using Suc.prems lt by (intro new_state_eq) simp_all
  have d: "d = kl - (k + 1)" using Suc.hyps by simp
  have ih: "next_inner this n kl (k + 1) ?nm =
      Inr (?nm[n := take (k + 1) (?nm ! n) @ map (\<lambda>j. next_value (model this ! n ! j) (an j)) [k + 1..<kl]])"
    using Suc.prems lt by (intro Suc.hyps(1) [OF d]) simp_all
  have "next_inner this n kl k nm = next_inner this n kl (k + 1) ?nm"
    using lt an ns by (subst next_inner.simps) simp
  also note ih
  also have "?nm[n := take (k + 1) (?nm ! n) @ map (\<lambda>j. next_value (model this ! n ! j) (an j)) [k + 1..<kl]]
      = nm[n := take k (nm ! n) @ map (\<lambda>j. next_value (model this ! n ! j) (an j)) [k..<kl]]"
    using Suc.prems lt by (simp add: take_Suc_update upt_conv_Cons)
  finally show ?case .
qed

lemma next_outer_eq:
  assumes "length nm = nl"
    and "\<forall>i. n \<le> i \<and> i < nl \<longrightarrow> nm ! i = replicate H (Num 0)"
    and "\<forall>i. n \<le> i \<and> i < nl \<longrightarrow> length (model this ! i) = H"
    and "\<forall>i j. n \<le> i \<and> i < nl \<and> j < H \<longrightarrow> aliveNeighbours this (int i) (int j) = Inr (an i j)"
  shows "next_outer this nl n nm =
           Inr (take n nm @ map (\<lambda>i. map (\<lambda>j. next_value (model this ! i ! j) (an i j)) [0..<H]) [n..<nl])"
  using assms
proof (induction "nl - n" arbitrary: n nm)
  case 0
  then have "\<not> n < nl" by simp
  with 0 show ?case
    by (subst next_outer.simps) simp
next
  case (Suc d)
  then have lt: "n < nl" by simp
  let ?col = "map (\<lambda>j. next_value (model this ! n ! j) (an n j)) [0..<H]"
  let ?nm = "nm[n := ?col]"
  have inner: "next_inner this n (length (model this ! n)) 0 nm = Inr ?nm"
  proof -
    have "next_inner this n H 0 nm =
        Inr (nm[n := take 0 (nm ! n) @ map (\<lambda>j. next_value (model this ! n ! j) (an n j)) [0..<H]])"
      using Suc.prems lt by (intro next_inner_eq) simp_all
    then show ?thesis using Suc.prems lt by simp
  qed
  have d: "d = nl - (n + 1)" using Suc.hyps by simp
  have ih: "next_outer this nl (n + 1) ?nm =
      Inr (take (n + 1) ?nm @ map (\<lambda>i. map (\<lambda>j. next_value (model this ! i ! j) (an i j)) [0..<H]) [n + 1..<nl])"
    using Suc.prems lt by (intro Suc.hyps(1) [OF d]) simp_all
  have "next_outer this nl n nm = next_outer this nl (n + 1) ?nm"
    using lt inner by (subst next_outer.simps) simp
  also note ih
  also have "take (n + 1) ?nm @ map (\<lambda>i. map (\<lambda>j. next_value (model this ! i ! j) (an i j)) [0..<H]) [n + 1..<nl]
      = take n nm @ map (\<lambda>i. map (\<lambda>j. next_value (model this ! i ! j) (an i j)) [0..<H]) [n..<nl]"
    using Suc.prems lt by (simp add: take_Suc_update upt_conv_Cons)
  finally show ?case .
qed

subsection \<open>The neighbour count\<close>

lemma interior_iff:
  "interior this n k \<longleftrightarrow>
     1 \<le> n \<and> n + 1 < width (opts this) \<and> 1 \<le> k \<and> k + 1 < height (opts this)"
  by (auto simp: interior_def moore_def in_bounds_def)

lemma dims_ok_col:
  "dims_ok this \<Longrightarrow> i < length (model this) \<Longrightarrow> length (model this ! i) = nat (height (opts this))"
  by (simp add: dims_ok_def list_all_length)

lemma cell_at_column:
  "0 \<le> i \<Longrightarrow> i < int (length (model this)) \<Longrightarrow> cell_at (model this) i j = Inr (cellv this i j)"
  by (simp add: cellv_def cell_at_def element_def)

lemma cellv_above:
  "0 \<le> i \<Longrightarrow> i < int (length (model this)) \<Longrightarrow> j < 0 \<Longrightarrow> cellv this i j = Undefined"
  by (simp add: cellv_def cell_at_def element_def)

lemma cellv_nth:
  "i < length (model this) \<Longrightarrow> j < length (model this ! i) \<Longrightarrow>
   cellv this (int i) (int j) = model this ! i ! j"
  by (simp add: cellv_def cell_at_def element_def)

lemma js_add_Undefined [simp]: "js_add Undefined v = NaN" "js_add v Undefined = NaN"
  by (cases v; simp)+

lemma js_add_NaN [simp]: "js_add NaN v = NaN" "js_add v NaN = NaN"
  by (cases v; simp)+

lemma aliveNeighbours_eq:
  assumes "dims_ok this" and "0 \<le> n" and "n < width (opts this)"
    and "0 \<le> k" and "k < height (opts this)" and "width (opts this) \<noteq> 1"
  shows "aliveNeighbours this n k = Inr (neighbour_sum this n k)"
proof -
  have len: "int (length (model this)) = width (opts this)"
    using assms by (simp add: dims_ok_def)
  have col: "\<And>i j. 0 \<le> i \<Longrightarrow> i < width (opts this) \<Longrightarrow>
      cell_at (model this) i j = Inr (cellv this i j)"
    using len by (simp add: cell_at_column)
  have up: "\<And>i. 0 \<le> i \<Longrightarrow> i < width (opts this) \<Longrightarrow> cellv this i (- 1) = Undefined"
    using len by (simp add: cellv_above)
  consider (tl) "n = 0" "k = 0"
    | (tr) "n \<noteq> 0" "n = width (opts this) - 1" "k = 0"
    | (mid) "interior this n k"
    | (edge) "\<not> interior this n k" "\<not> (k = 0 \<and> (n = 0 \<or> n = width (opts this) - 1))"
    by blast
  then show ?thesis
  proof cases
    case tl
    with assms have "1 < width (opts this)" by simp
    with tl show ?thesis
      by (simp add: aliveNeighbours_def neighbour_sum_def interior_iff col up)
  next
    case tr
    with assms show ?thesis
      by (simp add: aliveNeighbours_def neighbour_sum_def interior_iff col up)
  next
    case mid
    with assms show ?thesis
      by (simp add: aliveNeighbours_def neighbour_sum_def interior_iff sum8_def col)
  next
    case edge
    with assms show ?thesis
      by (auto simp add: aliveNeighbours_def neighbour_sum_def interior_iff)
  qed
qed

lemma aliveNeighbours_throws:
  assumes "length (model this) = 1"
  shows "aliveNeighbours this 0 0 = Inl TypeError"
  using assms by (simp add: aliveNeighbours_def cell_at_def element_def)

subsection \<open>One call of \<open>_next\<close>\<close>

text \<open>
  On a well-formed engine \<^verbatim>\<open>_next\<close> returns with the model in closed form, except on
  a single column with at least one row, where the first cell already throws.
\<close>

lemma next_step_eq:
  assumes "dims_ok this" and "width (opts this) \<noteq> 1 \<or> height (opts this) \<le> 0"
  shows "next_step this = Inr (this\<lparr>model := next_model this\<rparr>)"
proof -
  let ?W = "nat (width (opts this))" and ?H = "nat (height (opts this))"
  let ?an = "\<lambda>i j. neighbour_sum this (int i) (int j)"
  have len: "length (model this) = ?W" using assms by (simp add: dims_ok_def)
  have cols: "\<forall>i. 0 \<le> i \<and> i < ?W \<longrightarrow> length (model this ! i) = ?H"
    using assms len by (simp add: dims_ok_col)
  have an: "\<forall>i j. 0 \<le> i \<and> i < ?W \<and> j < ?H \<longrightarrow>
      aliveNeighbours this (int i) (int j) = Inr (?an i j)"
    using assms by (auto intro!: aliveNeighbours_eq)
  have "next_outer this ?W 0 (replicate ?W (replicate ?H (Num 0))) =
      Inr (take 0 (replicate ?W (replicate ?H (Num 0))) @
        map (\<lambda>i. map (\<lambda>j. next_value (model this ! i ! j) (?an i j)) [0..<?H]) [0..<?W])"
    using cols an by (intro next_outer_eq) simp_all
  moreover have "map (\<lambda>i. map (\<lambda>j. next_value (model this ! i ! j) (?an i j)) [0..<?H]) [0..<?W]
      = next_model this"
    unfolding next_model_def using len cols by (auto simp: cellv_nth)
  ultimately show ?thesis
    by (simp add: next_step_def generateModel_False len)
qed

lemma next_step_throws:
  assumes "dims_ok this" and "width (opts this) = 1" and "0 < height (opts this)"
  shows "next_step this = Inl TypeError"
proof -
  have len: "length (model this) = 1" using assms by (simp add: dims_ok_def)
  then have "0 < length (model this ! 0)" using assms by (simp add: dims_ok_col)
  with len show ?thesis
    by (simp add: next_step_def next_outer.simps [of _ _ 0] next_inner.simps [of _ _ _ 0]
        aliveNeighbours_throws)
qed

lemma next_model_nth:
  assumes "int n < width (opts this)" and "int k < height (opts this)"
  shows "next_model this ! n ! k =
           next_value (cellv this (int n) (int k)) (neighbour_sum this (int n) (int k))"
proof -
  have "n < nat (width (opts this))" and "k < nat (height (opts this))"
    using assms by simp_all
  then show ?thesis by (simp add: next_model_def)
qed

lemma next_value_no_count [simp]:
  "next_value c NaN = Num 0" "next_value c (Num 0) = Num 0"
  by (simp_all add: next_value_def)

lemma next_value_dead:
  "\<not> truthy c \<Longrightarrow> \<not> truthy an \<Longrightarrow> next_value c an = Num 0"
  by (cases an) (auto simp: next_value_def)

lemma next_value_bit: "next_value c an = Num 0 \<or> next_value c an = Num 1"
  by (simp add: next_value_def)

lemma cycle_cases:
  assumes "dims_ok this"
  shows "cycle this = this \<or> cycle this = this\<lparr>model := next_model this\<rparr>"
proof (cases "width (opts this) = 1 \<and> 0 < height (opts this)")
  case True
  then show ?thesis using assms by (simp add: cycle_def next_step_throws)
next
  case False
  then have "next_step this = Inr (this\<lparr>model := next_model this\<rparr>)"
    using assms by (intro next_step_eq) auto
  then show ?thesis by (simp add: cycle_def)
qed

subsection \<open>Invariants\<close>

lemma dims_ok_next_model: "dims_ok (this\<lparr>model := next_model this\<rparr>)"
  by (simp add: dims_ok_def next_model_def list_all_length)

lemma dims_ok_cycle: "dims_ok this \<Longrightarrow> dims_ok (cycle this)"
  using cycle_cases [of this] dims_ok_next_model [of this] by auto

lemma opts_cycle: "dims_ok this \<Longrightarrow> opts (cycle this) = opts this"
  using cycle_cases [of this] by auto

lemma dims_ok_restart: "dims_ok (restart this)"
  by (simp add: dims_ok_def restart_def generateModel_def generate_outer_length
      generate_outer_columns)

lemma opts_restart: "opts (restart this) = opts this"
  by (simp add: restart_def)

lemma dims_ok_GameOfLife: "dims_ok (GameOfLife options rnd)"
  by (simp add: GameOfLife_def dims_ok_restart)

lemma grid_dims_eq:
  "dims_ok this \<Longrightarrow>
   grid_dims this = replicate (nat (width (opts this))) (nat (height (opts this)))"
  by (auto simp: grid_dims_def dims_ok_def list_all_length intro!: nth_equalityI)

lemma run_invariant:
  "dims_ok this \<Longrightarrow> dims_ok (run ops this) \<and> opts (run ops this) = opts this"
proof (induction ops arbitrary: this)
  case Nil
  then show ?case by (simp add: run_def)
next
  case (Cons x ops)
  have "dims_ok (perform x this) \<and> opts (perform x this) = opts this"
    using Cons.prems by (cases x) (simp_all add: dims_ok_restart opts_restart dims_ok_cycle opts_cycle)
  with Cons.IH [of "perform x this"] show ?case by (simp add: run_def)
qed

lemma cells_ok_restart: "unit_interval (random this) \<Longrightarrow> cells_ok (restart this)"
  by (simp add: cells_ok_def restart_def generateModel_def generate_outer_cells)

lemma cells_ok_GameOfLife: "unit_interval rnd \<Longrightarrow> cells_ok (GameOfLife options rnd)"
  by (simp add: GameOfLife_def cells_ok_restart)

lemma cells_ok_next_model: "cells_ok (this\<lparr>model := next_model this\<rparr>)"
  using next_value_bit by (simp add: cells_ok_def next_model_def list_all_length)

lemma cells_ok_cycle: "dims_ok this \<Longrightarrow> cells_ok this \<Longrightarrow> cells_ok (cycle this)"
  using cycle_cases [of this] cells_ok_next_model [of this] by auto

lemma random_cycle: "dims_ok this \<Longrightarrow> random (cycle this) = random this"
  using cycle_cases [of this] by auto

lemma random_restart: "random (restart this) = random this"
  by (simp add: restart_def)

text \<open>
  Every engine that the constructor and any sequence of operations produce is
  well-formed, when the random values lie in \<open>[0, 1)\<close>.
\<close>

lemma reachable_well_formed:
  assumes "unit_interval rnd"
  shows "dims_ok (run ops (GameOfLife options rnd)) \<and> cells_ok (run ops (GameOfLife options rnd))"
proof -
  have "dims_ok (run ops this) \<and> cells_ok (run ops this) \<and> unit_interval (random (run ops this))"
    if "dims_ok this" "cells_ok this" "unit_interval (random this)" for this
    using that
  proof (induction ops arbitrary: this)
    case Nil
    then show ?case by (simp add: run_def)
  next
    case (Cons x ops)
    have "dims_ok (perform x this) \<and> cells_ok (perform x this)
        \<and> unit_interval (random (perform x this))"
      using Cons.prems
      by (cases x) (simp_all add: dims_ok_restart cells_ok_restart random_restart
          dims_ok_cycle cells_ok_cycle random_cycle)
    with Cons.IH [of "perform x this"] show ?case by (simp add: run_def)
  qed
  moreover have "random (GameOfLife options rnd) = rnd"
    by (simp add: GameOfLife_def restart_def)
  ultimately show ?thesis
    using assms dims_ok_GameOfLife [of options rnd] cells_ok_GameOfLife [OF assms, of options]
    by simp
qed

section \<open>The rule on interior cells\<close>

lemma cellv_of_bool:
  assumes "dims_ok this" and "cells_ok this" and "in_bounds this p"
  shows "cellv this (fst p) (snd p) = Num (of_bool (is_alive this p))"
proof -
  let ?i = "nat (fst p)" and ?j = "nat (snd p)"
  have i: "?i < length (model this)" using assms by (simp add: dims_ok_def in_bounds_def)
  then have j: "?j < length (model this ! ?i)"
    using assms by (simp add: dims_ok_col in_bounds_def)
  have "model this ! ?i ! ?j = Num 0 \<or> model this ! ?i ! ?j = Num 1"
    using assms(2) i j by (simp add: cells_ok_def list_all_length)
  moreover have "cellv this (fst p) (snd p) = model this ! ?i ! ?j"
    using cellv_nth [OF i j] assms(3) by (simp add: in_bounds_def)
  moreover have "is_alive this p \<longleftrightarrow> cellv this (fst p) (snd p) = Num 1"
    using cell_at_column [of "fst p" this "snd p"] i assms(3)
    by (simp add: is_alive_def in_bounds_def)
  ultimately show ?thesis by auto
qed

lemma length_filter_Cons:
  "length (filter P (x # xs)) = of_bool (P x) + length (filter P xs)"
  by simp

lemma sum8_count:
  assumes "dims_ok this" and "cells_ok this" and "interior this n k"
  shows "sum8 this n k = Num (int (live_neighbours this n k))"
proof -
  have inb: "\<forall>p \<in> set (moore n k). in_bounds this p"
    using assms(3) by (simp add: interior_def list_all_iff)
  have cv: "\<And>i j. (i, j) \<in> set (moore n k) \<Longrightarrow>
      cellv this i j = Num (of_bool (is_alive this (i, j)))"
    using cellv_of_bool [OF assms(1,2)] inb by fastforce
  have "live_neighbours this n k = length (filter (is_alive this) (moore n k))"
    unfolding live_neighbours_def using inb by (intro arg_cong [where f = length] filter_cong) auto
  then have "int (live_neighbours this n k) =
      of_bool (is_alive this (n - 1, k - 1)) + of_bool (is_alive this (n - 1, k))
      + of_bool (is_alive this (n - 1, k + 1)) + of_bool (is_alive this (n, k - 1))
      + of_bool (is_alive this (n, k + 1)) + of_bool (is_alive this (n + 1, k - 1))
      + of_bool (is_alive this (n + 1, k)) + of_bool (is_alive this (n + 1, k + 1))"
    by (simp only: moore_def length_filter_Cons filter.simps list.size of_nat_add of_nat_of_bool) simp
  moreover have "sum8 this n k = Num (
      of_bool (is_alive this (n - 1, k - 1)) + of_bool (is_alive this (n - 1, k))
      + of_bool (is_alive this (n - 1, k + 1)) + of_bool (is_alive this (n, k - 1))
      + of_bool (is_alive this (n, k + 1)) + of_bool (is_alive this (n + 1, k - 1))
      + of_bool (is_alive this (n + 1, k)) + of_bool (is_alive this (n + 1, k + 1)))"
    unfolding sum8_def using cv by (simp add: moore_def del: of_bool_eq_iff)
  ultimately show ?thesis by simp
qed

lemma next_value_conway:
  "next_value (Num (of_bool a)) (Num (int c)) = conway a c"
  by (cases a) (auto simp: next_value_def conway_def)

text \<open>
  C1: on a well-formed engine \<^verbatim>\<open>_next\<close> returns, and a strictly interior cell of the
  new model follows the standard rule on its count of live neighbours: alive with two or
  three live neighbours when it was alive, alive with exactly three when it was dead,
  dead otherwise. In particular a cell with exactly three live neighbours is alive
  whatever its state was.
\<close>

theorem next_step_interior:
  assumes "dims_ok this" and "cells_ok this" and "interior this (int n) (int k)"
  shows "\<exists>this'. next_step this = Inr this'
           \<and> model this' ! n ! k =
               conway (is_alive this (int n, int k)) (live_neighbours this (int n) (int k))
           \<and> (live_neighbours this (int n) (int k) = 3 \<longrightarrow> model this' ! n ! k = Num 1)"
proof -
  from assms(3) have ar: "1 \<le> int n" "int n + 1 < width (opts this)"
    "1 \<le> int k" "int k + 1 < height (opts this)"
    by (simp_all add: interior_iff)
  then have step: "next_step this = Inr (this\<lparr>model := next_model this\<rparr>)"
    using assms(1) by (intro next_step_eq) simp_all
  have "in_bounds this (int n, int k)" using ar by (simp add: in_bounds_def)
  then have c: "cellv this (int n) (int k) = Num (of_bool (is_alive this (int n, int k)))"
    using cellv_of_bool [OF assms(1,2), of "(int n, int k)"] by simp
  have "next_model this ! n ! k =
      next_value (cellv this (int n) (int k)) (neighbour_sum this (int n) (int k))"
    using ar by (intro next_model_nth) simp_all
  also have "\<dots> = conway (is_alive this (int n, int k)) (live_neighbours this (int n) (int k))"
    using assms by (simp add: neighbour_sum_def sum8_count c next_value_conway)
  finally have v: "next_model this ! n ! k =
      conway (is_alive this (int n, int k)) (live_neighbours this (int n) (int k))" .
  show ?thesis using step v by (simp add: conway_def)
qed

theorem next_step_interior_witness:
  "dims_ok birth3 \<and> cells_ok birth3 \<and> interior birth3 1 1
   \<and> (\<exists>this'. next_step birth3 = Inr this' \<and> model this' ! 1 ! 1 = Num 1)"
proof -
  have h: "dims_ok birth3" "cells_ok birth3" "interior birth3 (int 1) (int 1)"
    by code_simp+
  have c: "conway (is_alive birth3 (int 1, int 1)) (live_neighbours birth3 (int 1) (int 1)) = Num 1"
    by code_simp
  from next_step_interior [OF h] c h show ?thesis by auto
qed

section \<open>Edges and corners\<close>

text \<open>
  C2: the count of an edge or corner cell should be the number of live cells among its
  neighbours inside the grid. On the three by three grid whose live cells are the block
  in the corner \<open>(0, 0)\<close>, the edge cells \<open>(0, 1)\<close> and \<open>(1, 0)\<close> have three live
  neighbours inside the grid, and \<^verbatim>\<open>_next\<close> counts \<open>0\<close> for both: no branch covers
  a cell on an edge, and the count keeps its initial value.
\<close>

theorem neighbour_count_edge_defect:
  "aliveNeighbours corner_block 0 1 = Inr (Num 0) \<and> live_neighbours corner_block 0 1 = 3
   \<and> aliveNeighbours corner_block 1 0 = Inr (Num 0) \<and> live_neighbours corner_block 1 0 = 3"
  by code_simp

text \<open>
  C3: the count of the corner \<open>(0, 0)\<close> should add the cells \<open>(0, 1)\<close>, \<open>(1, 0)\<close> and
  \<open>(1, 1)\<close>. On the two by two grid of live cells the branch for the top left corner
  reads \<^verbatim>\<open>this._model[1][-1]\<close>, which is \<^verbatim>\<open>undefined\<close>, and the count is \<^verbatim>\<open>NaN\<close>
  where three neighbours are alive; on a grid of one column it reads a property of the
  missing column \<^verbatim>\<open>this._model[1]\<close> and throws.
\<close>

theorem corner_count_defect:
  "cell_at (model all_alive2) 1 (- 1) = Inr Undefined
   \<and> aliveNeighbours all_alive2 0 0 = Inr NaN \<and> live_neighbours all_alive2 0 0 = 3
   \<and> aliveNeighbours single_alive 0 0 = Inl TypeError"
  by code_simp

text \<open>
  C10: after one call of \<^verbatim>\<open>_next\<close> every cell on the boundary of the grid should be
  dead. On the grid of a single live cell it is not: the branch for the top left corner
  reads a property of the missing column \<^verbatim>\<open>this._model[1]\<close> and throws, the model is
  not replaced, and the live cell on the boundary is still alive after the call.
\<close>

theorem boundary_alive_after_throw:
  "dims_ok single_alive \<and> on_boundary single_alive 0 0
   \<and> next_step single_alive = Inl TypeError
   \<and> model (cycle single_alive) ! 0 ! 0 = Num 1"
proof -
  have h: "dims_ok single_alive" "on_boundary single_alive 0 0" by code_simp+
  have "next_step single_alive = Inl TypeError"
    by (rule next_step_throws [OF h(1)]) (simp_all add: single_alive_def engine_of_def)
  moreover from this have "model (cycle single_alive) ! 0 ! 0 = Num 1"
    by (simp add: cycle_def single_alive_def engine_of_def)
  ultimately show ?thesis using h by simp
qed

text \<open>
  On a well-formed engine of width at least two \<^verbatim>\<open>_next\<close> returns, and every cell
  on the boundary of the new model is \<open>0\<close>, whatever the model held; and whenever
  \<^verbatim>\<open>_next\<close> returns, whatever the width, every cell on the boundary is \<open>0\<close>.
\<close>

lemma next_step_boundary_dead:
  assumes "dims_ok this" and "2 \<le> width (opts this)" and "on_boundary this (int n) (int k)"
  shows "\<exists>this'. next_step this = Inr this' \<and> model this' ! n ! k = Num 0"
proof -
  have step: "next_step this = Inr (this\<lparr>model := next_model this\<rparr>)"
    using assms by (intro next_step_eq) simp_all
  have b: "int n < width (opts this)" "int k < height (opts this)"
    using assms(3) by (simp_all add: on_boundary_def in_bounds_def)
  have "\<not> interior this (int n) (int k)"
    using assms(3) by (auto simp: on_boundary_def interior_iff)
  then have "neighbour_sum this (int n) (int k) = NaN \<or> neighbour_sum this (int n) (int k) = Num 0"
    by (simp add: neighbour_sum_def)
  then have "next_model this ! n ! k = Num 0"
    using next_model_nth [OF b] by auto
  with step show ?thesis by simp
qed

lemma next_step_boundary_dead_sample:
  "dims_ok corner_block \<and> on_boundary corner_block 0 0
   \<and> (\<exists>this'. next_step corner_block = Inr this' \<and> model this' ! 0 ! 0 = Num 0)"
proof -
  have h: "dims_ok corner_block" "2 \<le> width (opts corner_block)"
    "on_boundary corner_block (int 0) (int 0)"
    by code_simp+
  from next_step_boundary_dead [OF h] h show ?thesis by simp
qed

lemma next_step_boundary_dead_returned:
  assumes "dims_ok this" and "next_step this = Inr this'" and "on_boundary this (int n) (int k)"
  shows "model this' ! n ! k = Num 0"
proof -
  have b: "0 < width (opts this)" "0 < height (opts this)"
    using assms(3) by (simp_all add: on_boundary_def in_bounds_def)
  have "width (opts this) \<noteq> 1"
    using next_step_throws [OF assms(1)] b assms(2) by auto
  with b have "2 \<le> width (opts this)" by simp
  from next_step_boundary_dead [OF assms(1) this assms(3)] assms(2) show ?thesis by simp
qed

section \<open>Construction and dimensions\<close>

text \<open>
  C4 as stated fails: the constructor has no check of the dimensions. With width and
  height \<open>0\<close> it builds a grid of \<open>100\<close> columns of \<open>100\<close> cells, with width
  \<open>-1\<close> a model without columns.
\<close>

theorem GameOfLife_no_error_counterexample:
  "grid_dims (GameOfLife (options_of 0 0) no_random) = replicate 100 100
   \<and> model (GameOfLife (options_of (- 1) 5) no_random) = []"
proof -
  have "grid_dims (GameOfLife (options_of 0 0) no_random) = replicate 100 100"
    using grid_dims_eq [OF dims_ok_GameOfLife, of "options_of 0 0" no_random]
    by (simp add: GameOfLife_def opts_restart options_of_def or_default_def)
  moreover have "grid_dims (GameOfLife (options_of (- 1) 5) no_random) = []"
    using grid_dims_eq [OF dims_ok_GameOfLife, of "options_of (- 1) 5" no_random]
    by (simp add: GameOfLife_def opts_restart options_of_def or_default_def)
  ultimately show ?thesis by (simp add: grid_dims_def)
qed

text \<open>
  C4, amended: the constructor raises no error on any width and height. An absent or
  zero width or height is replaced by the default \<open>100\<close>, and the grid has as many
  columns, and each column as many cells, as the resulting width and height say, none
  when they are negative.
\<close>

theorem GameOfLife_dimensions:
  "width (opts (GameOfLife options rnd)) = or_default (raw_width options) 100
   \<and> height (opts (GameOfLife options rnd)) = or_default (raw_height options) 100
   \<and> grid_dims (GameOfLife options rnd) =
       replicate (nat (width (opts (GameOfLife options rnd))))
         (nat (height (opts (GameOfLife options rnd))))"
  using grid_dims_eq [OF dims_ok_GameOfLife, of options rnd]
  by (simp add: GameOfLife_def opts_restart)

theorem GameOfLife_dimensions_witness:
  "width (opts (GameOfLife (options_of 0 (- 2)) no_random)) = 100
   \<and> height (opts (GameOfLife (options_of 0 (- 2)) no_random)) = - 2
   \<and> grid_dims (GameOfLife (options_of 0 (- 2)) no_random) = replicate 100 0"
  using GameOfLife_dimensions [of "options_of 0 (- 2)" no_random]
  by (simp add: options_of_def or_default_def)

text \<open>
  C9: on a well-formed engine the grid that \<^verbatim>\<open>_next\<close> returns has the width and the
  column heights of the grid it started from, and over any sequence of calls of
  \<^verbatim>\<open>restart\<close> and \<^verbatim>\<open>_next\<close> neither the options nor the dimensions of the grid
  change. The constructor's engine is well-formed (\<open>dims_ok_GameOfLife\<close>).
\<close>

theorem dimensions_fixed:
  assumes "dims_ok this"
  shows "(\<forall>this'. next_step this = Inr this' \<longrightarrow>
            grid_dims this' = grid_dims this \<and> opts this' = opts this)
         \<and> grid_dims (cycle this) = grid_dims this
         \<and> grid_dims (run ops this) = grid_dims this
         \<and> opts (run ops this) = opts this"
proof -
  have c: "dims_ok (cycle this)" "opts (cycle this) = opts this"
    using assms by (simp_all add: dims_ok_cycle opts_cycle)
  have r: "dims_ok (run ops this)" "opts (run ops this) = opts this"
    using run_invariant [OF assms] by simp_all
  have "grid_dims this' = grid_dims this \<and> opts this' = opts this"
    if "next_step this = Inr this'" for this'
  proof -
    from that have "cycle this = this'" by (simp add: cycle_def)
    with c show ?thesis using assms by (auto simp: grid_dims_eq)
  qed
  moreover have "grid_dims (cycle this) = grid_dims this"
    using c assms by (simp add: grid_dims_eq)
  moreover have "grid_dims (run ops this) = grid_dims this"
    using r assms by (simp add: grid_dims_eq)
  ultimately show ?thesis using r by blast
qed

theorem dimensions_fixed_witness:
  "dims_ok corner_block
   \<and> grid_dims (run [Next, Restart, Next] corner_block) = [3, 3, 3]
   \<and> grid_dims (cycle corner_block) = [3, 3, 3]"
proof -
  have h: "dims_ok corner_block" by code_simp
  have g: "grid_dims corner_block = [3, 3, 3]" by code_simp
  from dimensions_fixed [OF h, of "[Next, Restart, Next]"] g h show ?thesis by simp
qed

section \<open>Empty grids\<close>

lemma cellv_dead:
  assumes "no_cell_alive this"
  shows "\<not> truthy (cellv this i j)"
  using assms
  by (auto simp: no_cell_alive_def cellv_def cell_at_def element_def list_all_length)

lemma js_add_dead: "\<not> truthy a \<Longrightarrow> \<not> truthy b \<Longrightarrow> \<not> truthy (js_add a b)"
  by (cases a; cases b) simp_all

lemma neighbour_sum_dead:
  assumes "no_cell_alive this"
  shows "\<not> truthy (neighbour_sum this n k)"
  using cellv_dead [OF assms]
  by (simp add: neighbour_sum_def sum8_def js_add_dead)

lemma next_model_dead:
  assumes "no_cell_alive this"
  shows "next_model this =
           replicate (nat (width (opts this))) (replicate (nat (height (opts this))) (Num 0))"
  using assms
  by (simp add: next_model_def next_value_dead cellv_dead neighbour_sum_dead map_replicate_const)

lemma no_cell_alive_cycle:
  assumes "dims_ok this" and "no_cell_alive this"
  shows "no_cell_alive (cycle this)"
proof -
  have "no_cell_alive (this\<lparr>model := next_model this\<rparr>)"
    using assms(2) by (simp add: next_model_dead) (simp add: no_cell_alive_def list_all_length)
  with cycle_cases [OF assms(1)] assms(2) show ?thesis by auto
qed

text \<open>
  C5: a well-formed engine without a live cell has no live cell after any number of
  calls of \<^verbatim>\<open>_next\<close>.
\<close>

theorem empty_grid_stays_empty:
  assumes "dims_ok this" and "no_cell_alive this"
  shows "no_cell_alive ((cycle ^^ k) this)"
proof -
  have "dims_ok ((cycle ^^ k) this) \<and> no_cell_alive ((cycle ^^ k) this)"
  proof (induction k)
    case 0
    show ?case using assms by simp
  next
    case (Suc k)
    then show ?case by (simp add: dims_ok_cycle no_cell_alive_cycle)
  qed
  then show ?thesis by simp
qed

theorem empty_grid_stays_empty_witness:
  "dims_ok empty3 \<and> no_cell_alive empty3 \<and> no_cell_alive ((cycle ^^ 4) empty3)"
proof -
  have h: "dims_ok empty3" "no_cell_alive empty3" by code_simp+
  from empty_grid_stays_empty [OF h, of 4] h show ?thesis by simp
qed

section \<open>Still lifes and oscillators\<close>

lemma horizontal_rule:
  "survives (horizontal c d i j) (count8 (horizontal c d) i j) \<longleftrightarrow> vertical c d i j"
proof -
  consider "i \<le> c - 2" | "i = c - 1" | "i = c" | "i = c + 1" | "c + 2 \<le> i" by linarith
  then show ?thesis
  proof cases
    case 1 then show ?thesis by (auto simp: survives_def count8_def horizontal_def vertical_def)
  next
    case 2 then show ?thesis by (auto simp: survives_def count8_def horizontal_def vertical_def)
  next
    case 3 then show ?thesis by (auto simp: survives_def count8_def horizontal_def vertical_def)
  next
    case 4 then show ?thesis by (auto simp: survives_def count8_def horizontal_def vertical_def)
  next
    case 5 then show ?thesis by (auto simp: survives_def count8_def horizontal_def vertical_def)
  qed
qed

lemma vertical_rule:
  "survives (vertical c d i j) (count8 (vertical c d) i j) \<longleftrightarrow> horizontal c d i j"
proof -
  consider "j \<le> d - 2" | "j = d - 1" | "j = d" | "j = d + 1" | "d + 2 \<le> j" by linarith
  then show ?thesis
  proof cases
    case 1 then show ?thesis by (auto simp: survives_def count8_def horizontal_def vertical_def)
  next
    case 2 then show ?thesis by (auto simp: survives_def count8_def horizontal_def vertical_def)
  next
    case 3 then show ?thesis by (auto simp: survives_def count8_def horizontal_def vertical_def)
  next
    case 4 then show ?thesis by (auto simp: survives_def count8_def horizontal_def vertical_def)
  next
    case 5 then show ?thesis by (auto simp: survives_def count8_def horizontal_def vertical_def)
  qed
qed

lemma block_rule:
  "survives (block c d i j) (count8 (block c d) i j) \<longleftrightarrow> block c d i j"
proof -
  consider "i \<le> c - 2" | "i = c - 1" | "i = c" | "i = c + 1" | "c + 2 \<le> i" by linarith
  then show ?thesis
  proof cases
    case 1 then show ?thesis by (auto simp: survives_def count8_def block_def)
  next
    case 2 then show ?thesis by (auto simp: survives_def count8_def block_def)
  next
    case 3 then show ?thesis by (auto simp: survives_def count8_def block_def)
  next
    case 4 then show ?thesis by (auto simp: survives_def count8_def block_def)
  next
    case 5 then show ?thesis by (auto simp: survives_def count8_def block_def)
  qed
qed

lemma cellv_grid_of:
  assumes "model this = grid_of w h P" and "0 \<le> i" and "i < w" and "0 \<le> j" and "j < h"
  shows "cellv this i j = Num (of_bool (P i j))"
proof -
  have "nat i < nat w" and "nat j < nat h" using assms by simp_all
  then show ?thesis
    using assms by (simp add: cellv_def cell_at_def element_def grid_of_def)
qed

lemma dims_ok_grid_of:
  assumes "width (opts this) = w" and "height (opts this) = h" and "model this = grid_of w h P"
  shows "dims_ok this"
  using assms by (simp add: dims_ok_def grid_of_def list_all_length)

lemma sum8_grid_of:
  assumes "width (opts this) = w" and "height (opts this) = h"
    and "model this = grid_of w h P" and "interior this n k"
  shows "sum8 this n k = Num (count8 P n k)"
proof -
  from assms(1,2,4) have ar: "1 \<le> n" "n + 1 < w" "1 \<le> k" "k + 1 < h"
    by (simp_all add: interior_iff)
  have cv: "\<And>i j. 0 \<le> i \<Longrightarrow> i < w \<Longrightarrow> 0 \<le> j \<Longrightarrow> j < h \<Longrightarrow>
      cellv this i j = Num (of_bool (P i j))"
    using cellv_grid_of [OF assms(3)] by simp
  show ?thesis
    using ar by (simp add: sum8_def count8_def cv del: of_bool_eq_iff)
qed

lemma next_value_survives:
  "next_value (Num (of_bool a)) (Num s) = Num (of_bool (survives a s))"
  by (cases a) (simp_all add: next_value_def survives_def)

lemma next_model_grid_of:
  assumes w: "width (opts this) = w" and h: "height (opts this) = h"
    and m: "model this = grid_of w h P"
    and q: "\<And>i j. 0 \<le> i \<Longrightarrow> i < w \<Longrightarrow> 0 \<le> j \<Longrightarrow> j < h \<Longrightarrow>
      Q i j \<longleftrightarrow> interior this i j \<and> survives (P i j) (count8 P i j)"
  shows "next_model this = grid_of w h Q"
proof -
  have cell: "next_value (cellv this (int i) (int j)) (neighbour_sum this (int i) (int j))
      = Num (of_bool (Q (int i) (int j)))" if "i < nat w" and "j < nat h" for i j
  proof -
    have b: "0 \<le> int i" "int i < w" "0 \<le> int j" "int j < h" using that by simp_all
    have c: "cellv this (int i) (int j) = Num (of_bool (P (int i) (int j)))"
      using cellv_grid_of [OF m b] .
    show ?thesis
    proof (cases "interior this (int i) (int j)")
      case True
      then show ?thesis
        using q [OF b] sum8_grid_of [OF w h m True]
        by (simp add: neighbour_sum_def c next_value_survives)
    next
      case False
      then have "neighbour_sum this (int i) (int j) = NaN
          \<or> neighbour_sum this (int i) (int j) = Num 0"
        by (simp add: neighbour_sum_def)
      then show ?thesis using q [OF b] False by auto
    qed
  qed
  show ?thesis
    unfolding next_model_def grid_of_def w h using cell by simp
qed

lemma next_step_grid_of:
  assumes w: "width (opts this) = w" and h: "height (opts this) = h"
    and m: "model this = grid_of w h P" and "w \<noteq> 1"
    and q: "\<And>i j. 0 \<le> i \<Longrightarrow> i < w \<Longrightarrow> 0 \<le> j \<Longrightarrow> j < h \<Longrightarrow>
      Q i j \<longleftrightarrow> interior this i j \<and> survives (P i j) (count8 P i j)"
  shows "next_step this = Inr (this\<lparr>model := grid_of w h Q\<rparr>)"
  using next_step_eq [OF dims_ok_grid_of [OF w h m]] next_model_grid_of [OF w h m q] assms(1,4)
  by simp

lemma funpow_fixed: "f x = x \<Longrightarrow> (f ^^ m) x = x"
  by (induction m) simp_all

text \<open>
  The horizontal triple through \<open>(c, d)\<close>, at least two cells away from every side
  of an otherwise empty grid, becomes the vertical triple through \<open>(c, d)\<close> in one
  call of \<^verbatim>\<open>_next\<close> and the horizontal triple again in the next; the grid is back in
  its original state after every even number of calls.
\<close>

lemma blinker_oscillates:
  assumes w: "width (opts this) = w" and h: "height (opts this) = h"
    and m: "model this = grid_of w h (horizontal c d)"
    and margin: "2 \<le> c" "c + 2 < w" "2 \<le> d" "d + 2 < h"
  shows "next_step this = Inr (this\<lparr>model := grid_of w h (vertical c d)\<rparr>)
         \<and> next_step (this\<lparr>model := grid_of w h (vertical c d)\<rparr>) = Inr this
         \<and> (cycle ^^ (2 * r)) this = this
         \<and> (cycle ^^ (2 * r + 1)) this = this\<lparr>model := grid_of w h (vertical c d)\<rparr>"
proof -
  let ?v = "this\<lparr>model := grid_of w h (vertical c d)\<rparr>"
  have one: "next_step this = Inr ?v"
  proof (rule next_step_grid_of [OF w h m])
    show "w \<noteq> 1" using margin by simp
  next
    fix i j :: int
    have "vertical c d i j \<Longrightarrow> interior this i j"
      using margin w h by (simp add: vertical_def interior_iff)
    then show "vertical c d i j \<longleftrightarrow>
        interior this i j \<and> survives (horizontal c d i j) (count8 (horizontal c d) i j)"
      using horizontal_rule [of c d i j] by blast
  qed
  have "next_step ?v = Inr (?v\<lparr>model := grid_of w h (horizontal c d)\<rparr>)"
  proof (rule next_step_grid_of [of ?v w h "vertical c d"])
    show "w \<noteq> 1" using margin by simp
  next
    fix i j :: int
    have "horizontal c d i j \<Longrightarrow> interior ?v i j"
      using margin w h by (simp add: horizontal_def interior_iff)
    then show "horizontal c d i j \<longleftrightarrow>
        interior ?v i j \<and> survives (vertical c d i j) (count8 (vertical c d) i j)"
      using vertical_rule [of c d i j] by blast
  qed (simp_all add: w h)
  then have two: "next_step ?v = Inr this" using m [symmetric] by simp
  have c1: "cycle this = ?v" using one by (simp add: cycle_def)
  have c2: "cycle ?v = this" using two by (simp add: cycle_def)
  have "(cycle ^^ 2) this = this" using c1 c2 by (simp add: numeral_2_eq_2)
  then have even: "(cycle ^^ (2 * r)) this = this"
    by (simp add: funpow_mult [symmetric] funpow_fixed)
  then have "(cycle ^^ (2 * r + 1)) this = ?v" using c1 by simp
  with one two even show ?thesis by simp
qed

lemma blinker_oscillates_sample:
  "model blinker5 =
     [[Num 0, Num 0, Num 0, Num 0, Num 0], [Num 0, Num 0, Num 1, Num 0, Num 0],
      [Num 0, Num 0, Num 1, Num 0, Num 0], [Num 0, Num 0, Num 1, Num 0, Num 0],
      [Num 0, Num 0, Num 0, Num 0, Num 0]]
   \<and> model (cycle blinker5) =
     [[Num 0, Num 0, Num 0, Num 0, Num 0], [Num 0, Num 0, Num 0, Num 0, Num 0],
      [Num 0, Num 1, Num 1, Num 1, Num 0], [Num 0, Num 0, Num 0, Num 0, Num 0],
      [Num 0, Num 0, Num 0, Num 0, Num 0]]
   \<and> (cycle ^^ 2) blinker5 = blinker5"
proof -
  have h: "width (opts blinker5) = 5" "height (opts blinker5) = 5"
    "model blinker5 = grid_of 5 5 (horizontal 2 2)"
    by (simp_all add: blinker5_def engine_of_def)
  have g: "grid_of 5 5 (horizontal 2 2) =
     [[Num 0, Num 0, Num 0, Num 0, Num 0], [Num 0, Num 0, Num 1, Num 0, Num 0],
      [Num 0, Num 0, Num 1, Num 0, Num 0], [Num 0, Num 0, Num 1, Num 0, Num 0],
      [Num 0, Num 0, Num 0, Num 0, Num 0]]"
    "grid_of 5 5 (vertical 2 2) =
     [[Num 0, Num 0, Num 0, Num 0, Num 0], [Num 0, Num 0, Num 0, Num 0, Num 0],
      [Num 0, Num 1, Num 1, Num 1, Num 0], [Num 0, Num 0, Num 0, Num 0, Num 0],
      [Num 0, Num 0, Num 0, Num 0, Num 0]]"
    by code_simp+
  from blinker_oscillates [OF h, of 1] g h show ?thesis
    by (simp add: cycle_def)
qed

text \<open>
  C7: a horizontal triple in an otherwise empty grid should become the vertical triple
  through its centre and return after two calls of \<^verbatim>\<open>_next\<close>. In the seven by seven
  grid with the triple in columns \<open>0\<close> to \<open>2\<close> of row \<open>3\<close> the first call gives
  the vertical triple, and the second leaves only \<open>(1, 3)\<close> and \<open>(2, 3)\<close> alive:
  the dead cell \<open>(0, 3)\<close> on the boundary has three live neighbours and is counted
  \<open>0\<close>. In the three by three grid with the triple in the middle row only the centre
  survives the first call, where the vertical triple fits the grid.
\<close>

theorem blinker_edge_defect:
  "model blinker_edge = grid_of 7 7 (horizontal 1 3)
   \<and> model (cycle blinker_edge) = grid_of 7 7 (vertical 1 3)
   \<and> model (cycle (cycle blinker_edge)) =
     [[Num 0, Num 0, Num 0, Num 0, Num 0, Num 0, Num 0],
      [Num 0, Num 0, Num 0, Num 1, Num 0, Num 0, Num 0],
      [Num 0, Num 0, Num 0, Num 1, Num 0, Num 0, Num 0],
      [Num 0, Num 0, Num 0, Num 0, Num 0, Num 0, Num 0],
      [Num 0, Num 0, Num 0, Num 0, Num 0, Num 0, Num 0],
      [Num 0, Num 0, Num 0, Num 0, Num 0, Num 0, Num 0],
      [Num 0, Num 0, Num 0, Num 0, Num 0, Num 0, Num 0]]
   \<and> model (cycle (cycle blinker_edge)) \<noteq> model blinker_edge
   \<and> live_neighbours (cycle blinker_edge) 0 3 = 3
   \<and> aliveNeighbours (cycle blinker_edge) 0 3 = Inr (Num 0)
   \<and> model blinker3 = [[Num 0, Num 1, Num 0], [Num 0, Num 1, Num 0], [Num 0, Num 1, Num 0]]
   \<and> grid_of 3 3 (vertical 1 1) =
     [[Num 0, Num 0, Num 0], [Num 1, Num 1, Num 1], [Num 0, Num 0, Num 0]]
   \<and> model (cycle blinker3) =
     [[Num 0, Num 0, Num 0], [Num 0, Num 1, Num 0], [Num 0, Num 0, Num 0]]"
  by code_simp

text \<open>A block none of whose cells lies on the boundary is left unchanged.\<close>

lemma block_still_life:
  assumes w: "width (opts this) = w" and h: "height (opts this) = h"
    and m: "model this = grid_of w h (block c d)"
    and margin: "1 \<le> c" "c + 2 < w" "1 \<le> d" "d + 2 < h"
  shows "next_step this = Inr this"
proof -
  have "next_step this = Inr (this\<lparr>model := grid_of w h (block c d)\<rparr>)"
  proof (rule next_step_grid_of [OF w h m])
    show "w \<noteq> 1" using margin by simp
  next
    fix i j :: int
    have "block c d i j \<Longrightarrow> interior this i j"
      using margin w h by (simp add: block_def interior_iff)
    then show "block c d i j \<longleftrightarrow>
        interior this i j \<and> survives (block c d i j) (count8 (block c d) i j)"
      using block_rule [of c d i j] by blast
  qed
  then show ?thesis using m [symmetric] by simp
qed

text \<open>
  C6: a two by two block should be a still life wherever it lies in the grid. The block
  in the corner \<open>(0, 0)\<close> of a three by three grid is not: its three cells on the
  boundary die and only \<open>(1, 1)\<close> stays alive.
\<close>

theorem corner_block_defect:
  "model (cycle corner_block) =
     [[Num 0, Num 0, Num 0], [Num 0, Num 1, Num 0], [Num 0, Num 0, Num 0]]"
  by code_simp

end
